theory Spec2Isabelle
  imports Main "HOL-Library.Monad_Syntax"
begin

section \<open>Strings\<close>

text \<open>
  A JavaScript string is modelled as a \<open>string\<close>: one \<open>char\<close> per UTF-16 code unit, for
  code units in the range 0 to 255. The white space of \<open>trim\<close> and of the regular
  expression class for white space is, in that range, the characters 9 to 13, 32 and 160;
  the line terminators (which the regular expression dot does not match) are 10 and 13.
\<close>

definition isSpaceChar :: "char \<Rightarrow> bool" where
  "isSpaceChar c =
     (c \<in> set [CHR 0x09, CHR 0x0A, CHR 0x0B, CHR 0x0C, CHR 0x0D, CHR 0x20, CHR 0xA0])"

definition isLineTerminator :: "char \<Rightarrow> bool" where
  "isLineTerminator c = (c = CHR 0x0A \<or> c = CHR 0x0D)"

definition trim :: "string \<Rightarrow> string" where
  "trim s = rev (dropWhile isSpaceChar (rev (dropWhile isSpaceChar s)))"

definition startsWith :: "string \<Rightarrow> string \<Rightarrow> bool" where
  "startsWith s t = (take (length t) s = t)"

definition endsWith :: "string \<Rightarrow> string \<Rightarrow> bool" where
  "endsWith s t = (length t \<le> length s \<and> drop (length s - length t) s = t)"

text \<open>\<open>s.split(sep)\<close> for a one-character separator: never empty, \<open>[[]]\<close> on the empty string.\<close>

fun splitOn :: "char \<Rightarrow> string \<Rightarrow> string list" where
  "splitOn sep [] = [[]]"
| "splitOn sep (c # cs) =
     (if c = sep then [] # splitOn sep cs
      else (case splitOn sep cs of
              [] \<Rightarrow> [[c]]
            | l # ls \<Rightarrow> (c # l) # ls))"

text \<open>\<open>xs.join(sep)\<close>.\<close>

fun joinWith :: "string \<Rightarrow> string list \<Rightarrow> string" where
  "joinWith sep [] = []"
| "joinWith sep [x] = x"
| "joinWith sep (x # y # ys) = x @ sep @ joinWith sep (y # ys)"

text \<open>
  \<open>s.indexOf(pat, from)\<close>: the least offset at or after \<open>from\<close> where \<open>pat\<close> occurs, or -1.
  A negative \<open>from\<close> counts as 0 and one beyond the end as the length, as in JavaScript.
\<close>

fun findSub :: "string \<Rightarrow> string \<Rightarrow> nat option" where
  "findSub pat [] = (if pat = [] then Some 0 else None)"
| "findSub pat (c # cs) =
     (if startsWith (c # cs) pat then Some 0
      else (case findSub pat cs of None \<Rightarrow> None | Some i \<Rightarrow> Some (Suc i)))"

definition indexOf :: "string \<Rightarrow> string \<Rightarrow> int \<Rightarrow> int" where
  "indexOf s pat from =
     (let k = nat (min (max from 0) (int (length s)))
      in case findSub pat (drop k s) of
           None \<Rightarrow> - 1
         | Some i \<Rightarrow> int (k + i))"

section \<open>Data model\<close>

record IndexRow =
  title :: string
  path :: string
  purpose :: "string option"

record DocsIndexKeeperConfig =
  indexFile :: string
  docsDir :: string
  exclude :: "string list"
  allowedRootMd :: "string list"
  warnRootMd :: bool

record UpdateResult =
  updated :: bool
  added :: "IndexRow list"

text \<open>
  What a run can do to its surroundings, and how it can fail: \<open>execSync\<close> raising
  when the version-control command fails, and the \<open>RegExp\<close> constructor raising on a
  pattern that is not well formed.
\<close>

datatype event = ExecGitDiff | ConsoleWarn "string list" | WriteFile string string

datatype error = ExecError | RegExpError

text \<open>
  The surroundings of one run: the environment variable \<open>DOCS_INDEX_KEEPER_STAGED\<close>,
  the output of \<open>git diff --cached --name-only\<close> (\<open>None\<close> when the command fails), the
  readable files by joined path, and the effects so far, oldest first.
\<close>

record world =
  envStaged :: "string option"
  gitStaged :: "string option"
  files :: "string \<Rightarrow> string option"
  events :: "event list"

text \<open>
  Two library functions the code calls are parameters of the model: \<open>path.join\<close>, and
  the regular-expression engine on a \<open>docsDir\<close> that holds a metacharacter
  (\<open>regexpStrip d p\<close> is then what replacing the first match of the pattern made from
  \<open>d\<close> in \<open>p\<close> by the empty string gives, or the constructor's error).
\<close>

record host =
  pathJoin :: "string \<Rightarrow> string \<Rightarrow> string"
  regexpStrip :: "string \<Rightarrow> string \<Rightarrow> error + string"

section \<open>Staged-file resolver\<close>

definition execGitDiff :: "world \<Rightarrow> (error + string list) \<times> world" where
  "execGitDiff w =
     (let w' = w\<lparr>events := events w @ [ExecGitDiff]\<rparr>
      in case gitStaged w of
           None \<Rightarrow> (Inl ExecError, w')
         | Some out \<Rightarrow>
             (Inr (filter (\<lambda>s. endsWith s ''.md'') (map trim (splitOn (CHR 0x0A) out))), w'))"

text \<open>
  The guard of the source tests the chosen override for truthiness: the explicit
  override wins over the environment whenever it is given, and an empty chosen string
  falls through to the version-control query like an absent one.
\<close>

definition getStagedMdFiles :: "world \<Rightarrow> string option \<Rightarrow> (error + string list) \<times> world" where
  "getStagedMdFiles w stagedOverride =
     (let envOverride = envStaged w;
          chosen = (case stagedOverride of Some s \<Rightarrow> Some s | None \<Rightarrow> envOverride)
      in case chosen of
           None \<Rightarrow> execGitDiff w
         | Some raw \<Rightarrow>
             if raw = [] then execGitDiff w
             else (Inr (filter (\<lambda>s. endsWith s ''.md'') (map trim (splitOn (CHR 0x0A) raw))), w))"

section \<open>Doc-set filter\<close>

definition getStagedDocs :: "string list \<Rightarrow> DocsIndexKeeperConfig \<Rightarrow> string list" where
  "getStagedDocs staged config =
     (let docsPrefix = docsDir config @ ''/''
      in filter (\<lambda>p.
           if \<not> startsWith p docsPrefix then False
           else (let rel = drop (length docsPrefix) p
                 in if list_ex (\<lambda>e. rel = e \<or> startsWith rel e) (exclude config) then False
                    else True))
         staged)"

section \<open>First-heading extraction\<close>

text \<open>
  The source searches the file's text for the multi-line pattern: line start, one or more
  hash signs, one or more white-space characters, a captured group of one or more
  characters other than line terminators, line end. The engine is greedy and backtracks:
  all hash signs are taken (with fewer the next character is a hash sign, not white space);
  the white-space run is taken whole and given back one character at a time until the
  group can start on a character that is not a line terminator, at least one white-space
  character staying consumed; the group then runs to the next line terminator or the end.
\<close>

fun backtrackSpaces :: "string \<Rightarrow> string \<Rightarrow> string option" where
  "backtrackSpaces [] rest = None"
| "backtrackSpaces (c # consumed) rest =
     (if rest \<noteq> [] \<and> \<not> isLineTerminator (hd rest)
      then Some (takeWhile (\<lambda>x. \<not> isLineTerminator x) rest)
      else backtrackSpaces consumed (c # rest))"

definition headingAt :: "string \<Rightarrow> string option" where
  "headingAt s =
     (let hashes = takeWhile (\<lambda>c. c = CHR ''#'') s;
          r1 = dropWhile (\<lambda>c. c = CHR ''#'') s;
          spaces = takeWhile isSpaceChar r1;
          r2 = dropWhile isSpaceChar r1
      in if hashes = [] then None else backtrackSpaces (rev spaces) r2)"

text \<open>The leftmost match: a match is tried at the start of the text and after each line terminator.\<close>

fun searchHeading :: "bool \<Rightarrow> string \<Rightarrow> string option" where
  "searchHeading atLineStart [] = None"
| "searchHeading atLineStart (c # cs) =
     (case (if atLineStart then headingAt (c # cs) else None) of
        Some m \<Rightarrow> Some m
      | None \<Rightarrow> searchHeading (isLineTerminator c) cs)"

definition getFirstHeading :: "host \<Rightarrow> world \<Rightarrow> string \<Rightarrow> string \<Rightarrow> string option" where
  "getFirstHeading h w root filePath =
     (let full = pathJoin h root filePath
      in case files w full of
           None \<Rightarrow> None
         | Some content \<Rightarrow>
             (case searchHeading True content of
                None \<Rightarrow> None
              | Some m \<Rightarrow> Some (trim m)))"

section \<open>Table parser\<close>

text \<open>
  The link-cell pattern of the source: a pipe, optional white space, a bracketed title of
  one or more characters other than the closing bracket, a parenthesised path of one or
  more characters other than the closing parenthesis, optional white space, a pipe. Each
  greedy run is followed by a character the run excludes, so at a given start the match
  is decided without backtracking; \<open>linkMatch\<close> takes the leftmost start that matches.
\<close>

definition expectChar :: "char \<Rightarrow> string \<Rightarrow> string option" where
  "expectChar c s = (case s of [] \<Rightarrow> None | x # r \<Rightarrow> if x = c then Some r else None)"

definition matchLinkAt :: "string \<Rightarrow> (string \<times> string) option" where
  "matchLinkAt s =
     do {
       r0 \<leftarrow> expectChar (CHR ''|'') s;
       r1 \<leftarrow> expectChar (CHR ''['') (dropWhile isSpaceChar r0);
       let t = takeWhile (\<lambda>c. c \<noteq> CHR '']'') r1;
       if t = [] then None
       else do {
         r2 \<leftarrow> expectChar (CHR '']'') (dropWhile (\<lambda>c. c \<noteq> CHR '']'') r1);
         r3 \<leftarrow> expectChar (CHR ''('') r2;
         let p = takeWhile (\<lambda>c. c \<noteq> CHR '')'') r3;
         if p = [] then None
         else do {
           r4 \<leftarrow> expectChar (CHR '')'') (dropWhile (\<lambda>c. c \<noteq> CHR '')'') r3);
           r5 \<leftarrow> expectChar (CHR ''|'') (dropWhile isSpaceChar r4);
           Some (t, p)
         }
       }
     }"

fun linkMatch :: "string \<Rightarrow> (string \<times> string) option" where
  "linkMatch [] = None"
| "linkMatch (c # cs) =
     (case matchLinkAt (c # cs) of
        Some m \<Rightarrow> Some m
      | None \<Rightarrow> linkMatch cs)"

definition includesStr :: "string \<Rightarrow> string \<Rightarrow> bool" where
  "includesStr s t = (findSub t s \<noteq> None)"

text \<open>
  The loop of \<open>parseTable\<close> over the lines, with its two variables; the \<open>break\<close> of the
  source is the branch that returns without looking at the remaining lines.
\<close>

fun parseLoop :: "string list \<Rightarrow> bool \<Rightarrow> IndexRow list \<Rightarrow> bool \<times> IndexRow list" where
  "parseLoop [] inTable rows = (inTable, rows)"
| "parseLoop (line # rest) inTable rows =
     (if startsWith line ''|'' \<and> includesStr line ''|''
      then (case linkMatch line of
              Some (t, p) \<Rightarrow>
                parseLoop rest True (rows @ [\<lparr>title = t, path = p, purpose = None\<rparr>])
            | None \<Rightarrow> parseLoop rest True rows)
      else if inTable \<and> \<not> startsWith (trim line) ''|'' then (inTable, rows)
      else parseLoop rest inTable rows)"

definition parseTable :: "string \<Rightarrow> IndexRow list" where
  "parseTable readmeContent = snd (parseLoop (splitOn (CHR 0x0A) readmeContent) False [])"

section \<open>Root-level warning\<close>

text \<open>
  The base name: the source removes the longest prefix that ends in a slash and holds no
  line terminator, when there is one.
\<close>

definition baseName :: "string \<Rightarrow> string" where
  "baseName p =
     (let run = takeWhile (\<lambda>c. \<not> isLineTerminator c) p
      in if CHR ''/'' \<in> set run
         then drop (length run - length (takeWhile (\<lambda>c. c \<noteq> CHR ''/'') (rev run))) p
         else p)"

definition warnRootMdStaged :: "world \<Rightarrow> string list \<Rightarrow> DocsIndexKeeperConfig \<Rightarrow> world" where
  "warnRootMdStaged w staged config =
     (if \<not> warnRootMd config then w
      else (let rootMd = filter (\<lambda>p. \<not> includesStr p ''/'' \<or> startsWith p ''.github/'') staged;
                inRoot = filter (\<lambda>p. \<not> List.member (allowedRootMd config) (baseName p)) rootMd
            in if inRoot \<noteq> [] then w\<lparr>events := events w @ [ConsoleWarn inRoot]\<rparr> else w))"

section \<open>Row diff\<close>

text \<open>
  Both \<open>computeNewRows\<close> and \<open>check\<close> normalise a staged path by replacing the first
  match of the pattern built from \<open>docsDir\<close> (anchored at the start, followed by a slash).
  When \<open>docsDir\<close> holds no metacharacter the pattern is the literal prefix; otherwise the
  result is the engine's.
\<close>

definition regexMeta :: "char list" where
  "regexMeta = ''^$.*+?()[]{}|'' @ [CHR 0x5C]"

definition plainPattern :: "string \<Rightarrow> bool" where
  "plainPattern d = list_all (\<lambda>c. \<not> List.member regexMeta c) d"

definition stripDocsDir :: "host \<Rightarrow> string \<Rightarrow> string \<Rightarrow> error + string" where
  "stripDocsDir h d p =
     (if plainPattern d
      then Inr (if startsWith p (d @ ''/'') then drop (length (d @ ''/'')) p else p)
      else regexpStrip h d p)"

text \<open>Removing a final \<open>.md\<close>, and replacing every hyphen by a space.\<close>

definition stripMd :: "string \<Rightarrow> string" where
  "stripMd s = (if endsWith s ''.md'' then take (length s - 3) s else s)"

definition hyphensToSpaces :: "string \<Rightarrow> string" where
  "hyphensToSpaces s = map (\<lambda>c. if c = CHR ''-'' then CHR '' '' else c) s"

text \<open>
  The loop of \<open>computeNewRows\<close>. The set is the caller's, changed in place by the source:
  the model returns it with the rows. An empty heading is falsy and gives way to the
  title made from the path.
\<close>

fun computeNewRowsLoop ::
  "host \<Rightarrow> world \<Rightarrow> string \<Rightarrow> DocsIndexKeeperConfig \<Rightarrow> string list \<Rightarrow> string set \<Rightarrow>
   IndexRow list \<Rightarrow> error + (IndexRow list \<times> string set)" where
  "computeNewRowsLoop h w root config [] existingPaths toAdd = Inr (toAdd, existingPaths)"
| "computeNewRowsLoop h w root config (p # rest) existingPaths toAdd =
     (case stripDocsDir h (docsDir config) p of
        Inl e \<Rightarrow> Inl e
      | Inr pth \<Rightarrow>
          if pth \<in> existingPaths then computeNewRowsLoop h w root config rest existingPaths toAdd
          else (let titleFromPath = hyphensToSpaces (stripMd pth);
                    purp = (case getFirstHeading h w root p of
                              None \<Rightarrow> titleFromPath
                            | Some heading \<Rightarrow> if heading = [] then titleFromPath else heading);
                    ttl = stripMd pth
                in computeNewRowsLoop h w root config rest (insert pth existingPaths)
                     (toAdd @ [\<lparr>title = ttl, path = pth, purpose = Some purp\<rparr>])))"

definition computeNewRows ::
  "host \<Rightarrow> world \<Rightarrow> string \<Rightarrow> string list \<Rightarrow> string set \<Rightarrow> DocsIndexKeeperConfig \<Rightarrow>
   error + (IndexRow list \<times> string set)" where
  "computeNewRows h w root stagedDocs existingPaths config =
     computeNewRowsLoop h w root config stagedDocs existingPaths []"

section \<open>Row insertion\<close>

definition renderRow :: "IndexRow \<Rightarrow> string" where
  "renderRow r =
     ''| ['' @ title r @ '']('' @ path r @ '') | '' @
     (case purpose r of None \<Rightarrow> title r | Some p \<Rightarrow> p) @ '' |''"

definition defaultSentinel :: string where
  "defaultSentinel = ''| [archive/]''"

text \<open>
  The three assignments to \<open>insertIdx\<close> in the source. The inner \<open>indexOf\<close> of the
  header is passed on as it is: -1 when the header is absent.
\<close>

definition insertIdx :: "string \<Rightarrow> string \<Rightarrow> nat" where
  "insertIdx readme sentinelPattern =
     (let i1 = indexOf readme sentinelPattern 0;
          i2 = (if i1 = - 1
                then indexOf readme [CHR 0x0A, CHR 0x0A] (indexOf readme ''| Doc | Purpose |'' 0)
                else i1);
          i3 = (if i2 = - 1 then int (length readme) else i2)
      in nat i3)"

definition insertRows :: "string \<Rightarrow> IndexRow list \<Rightarrow> string \<Rightarrow> string" where
  "insertRows readme newRows sentinelPattern =
     (let newLines = map renderRow newRows;
          idx = insertIdx readme sentinelPattern
      in take idx readme @ joinWith [CHR 0x0A] newLines @ [CHR 0x0A] @ drop idx readme)"

section \<open>Entry points\<close>

definition noChange :: UpdateResult where
  "noChange = \<lparr>updated = False, added = []\<rparr>"

definition update ::
  "host \<Rightarrow> world \<Rightarrow> string \<Rightarrow> DocsIndexKeeperConfig \<Rightarrow> string option \<Rightarrow>
   (error + UpdateResult) \<times> world" where
  "update h w root config stagedOverride =
     (let indexPath = pathJoin h root (indexFile config)
      in case getStagedMdFiles w stagedOverride of
           (Inl e, w1) \<Rightarrow> (Inl e, w1)
         | (Inr staged, w1) \<Rightarrow>
             if staged = [] then (Inr noChange, w1)
             else (let w2 = warnRootMdStaged w1 staged config;
                       stagedDocs = getStagedDocs staged config
                   in if stagedDocs = [] then (Inr noChange, w2)
                      else (case files w2 indexPath of
                              None \<Rightarrow> (Inr noChange, w2)
                            | Some readme \<Rightarrow>
                                (let existing = parseTable readme;
                                     existingPaths = set (map path existing)
                                 in case computeNewRows h w2 root stagedDocs existingPaths config of
                                      Inl e \<Rightarrow> (Inl e, w2)
                                    | Inr (toAdd, seen) \<Rightarrow>
                                        if toAdd = [] then (Inr noChange, w2)
                                        else (let readme' = insertRows readme toAdd defaultSentinel;
                                                  w3 = w2\<lparr>files := (files w2)(indexPath \<mapsto> readme'),
                                                          events := events w2 @ [WriteFile indexPath readme']\<rparr>
                                              in (Inr \<lparr>updated = True, added = toAdd\<rparr>, w3))))))"

fun checkLoop :: "host \<Rightarrow> DocsIndexKeeperConfig \<Rightarrow> string set \<Rightarrow> string list \<Rightarrow> error + bool" where
  "checkLoop h config existingPaths [] = Inr True"
| "checkLoop h config existingPaths (p # rest) =
     (case stripDocsDir h (docsDir config) p of
        Inl e \<Rightarrow> Inl e
      | Inr pth \<Rightarrow>
          if pth \<notin> existingPaths then Inr False
          else checkLoop h config existingPaths rest)"

definition check ::
  "host \<Rightarrow> world \<Rightarrow> string \<Rightarrow> DocsIndexKeeperConfig \<Rightarrow> string option \<Rightarrow> (error + bool) \<times> world" where
  "check h w root config stagedOverride =
     (let indexPath = pathJoin h root (indexFile config)
      in case getStagedMdFiles w stagedOverride of
           (Inl e, w1) \<Rightarrow> (Inl e, w1)
         | (Inr staged, w1) \<Rightarrow>
             (let stagedDocs = getStagedDocs staged config
              in if stagedDocs = [] then (Inr True, w1)
                 else (case files w1 indexPath of
                         None \<Rightarrow> (Inr True, w1)
                       | Some readme \<Rightarrow>
                           (let existing = parseTable readme;
                                existingPaths = set (map path existing)
                            in (checkLoop h config existingPaths stagedDocs, w1)))))"

section \<open>Observing the writes of a run\<close>

definition isWrite :: "event \<Rightarrow> bool" where
  "isWrite e = (case e of WriteFile f c \<Rightarrow> True | _ \<Rightarrow> False)"

definition writesOf :: "world \<Rightarrow> event list" where
  "writesOf w = filter isWrite (events w)"

section \<open>Rows that read back\<close>

text \<open>
  Conditions under which the parser reads a spliced row back: the splice is at the start
  of a line, and the row renders as one line whose link cell the pattern matches at its
  first character (a title that is not empty and holds no closing bracket, a path that
  is not empty and holds no closing parenthesis). \<open>parsedRow\<close> is the row as the parser
  returns it, without the purpose.
\<close>

definition atLineStart :: "string \<Rightarrow> nat \<Rightarrow> bool" where
  "atLineStart s i = (i = 0 \<or> (i \<le> length s \<and> s ! (i - 1) = CHR 0x0A))"

definition readsBack :: "IndexRow \<Rightarrow> bool" where
  "readsBack r =
     (title r \<noteq> [] \<and> CHR '']'' \<notin> set (title r) \<and>
      path r \<noteq> [] \<and> CHR '')'' \<notin> set (path r) \<and>
      CHR 0x0A \<notin> set (renderRow r))"

definition parsedRow :: "IndexRow \<Rightarrow> IndexRow" where
  "parsedRow r = \<lparr>title = title r, path = path r, purpose = None\<rparr>"

section \<open>Concrete inputs\<close>

text \<open>
  The configuration of the repository's tests, and a host whose \<open>path.join\<close> is the
  concatenation with a slash (its value on a root and a relative path that need no
  normalisation). The engine parameter is never consulted for the plain \<open>docsDir\<close> of
  this configuration.
\<close>

definition testConfig :: DocsIndexKeeperConfig where
  "testConfig =
     \<lparr>indexFile = ''docs/README.md'', docsDir = ''docs'',
      exclude = [''README.md'', ''archive/''], allowedRootMd = [''README.md''],
      warnRootMd = False\<rparr>"

definition nodeHost :: host where
  "nodeHost = \<lparr>pathJoin = (\<lambda>a b. a @ ''/'' @ b), regexpStrip = (\<lambda>d p. Inl RegExpError)\<rparr>"

definition stagedExample :: "string list" where
  "stagedExample = [''docs/foo.md'', ''docs/README.md'', ''docs/archive/old.md'', ''other/bar.md'']"

text \<open>A repository with no index file, in which one Markdown file under \<open>docs\<close> is staged.\<close>

definition gitWorld :: world where
  "gitWorld = \<lparr>envStaged = None, gitStaged = Some (''docs/x.md'' @ [CHR 0x0A]),
               files = Map.empty, events = []\<rparr>"

text \<open>
  An index with the header of the README, one row, a blank line and a closing sentence,
  and no archive row; \<open>glueIndex1\<close> and \<open>glueIndex2\<close> are the texts the first and the second
  \<open>update\<close> write for the staged file \<open>docs/b.md\<close>.
\<close>

definition glueIndex :: string where
  "glueIndex =
     ''| Doc | Purpose |'' @ [CHR 0x0A] @
     ''|-----|---------|'' @ [CHR 0x0A] @
     ''| [a](a.md) | A |'' @ [CHR 0x0A] @
     [CHR 0x0A] @
     ''See the wiki.'' @ [CHR 0x0A]"

definition glueWorld :: world where
  "glueWorld = \<lparr>envStaged = None, gitStaged = None,
                files = [''/repo/docs/README.md'' \<mapsto> glueIndex], events = []\<rparr>"

definition glueIndex1 :: string where
  "glueIndex1 =
     ''| Doc | Purpose |'' @ [CHR 0x0A] @
     ''|-----|---------|'' @ [CHR 0x0A] @
     ''| [a](a.md) | A || [b](b.md) | b |'' @ [CHR 0x0A] @
     [CHR 0x0A] @ [CHR 0x0A] @
     ''See the wiki.'' @ [CHR 0x0A]"

definition glueIndex2 :: string where
  "glueIndex2 =
     ''| Doc | Purpose |'' @ [CHR 0x0A] @
     ''|-----|---------|'' @ [CHR 0x0A] @
     ''| [a](a.md) | A || [b](b.md) | b || [b](b.md) | b |'' @ [CHR 0x0A] @
     [CHR 0x0A] @ [CHR 0x0A] @ [CHR 0x0A] @
     ''See the wiki.'' @ [CHR 0x0A]"

text \<open>An index whose table has another header than the one \<open>insertRows\<close> looks for.\<close>

definition headerlessIndex :: string where
  "headerlessIndex =
     ''# Docs'' @ [CHR 0x0A] @
     [CHR 0x0A] @
     ''| Document | Purpose |'' @ [CHR 0x0A] @
     ''|---|---|'' @ [CHR 0x0A] @
     ''| [a](a.md) | A |'' @ [CHR 0x0A]"

definition bRow :: IndexRow where
  "bRow = \<lparr>title = ''b'', path = ''b.md'', purpose = Some ''B''\<rparr>"

text \<open>
  An index with the archive row, in which \<open>a.md\<close> is indexed, and a staged list that names
  \<open>docs/b.md\<close> twice and \<open>docs/a.md\<close> once.
\<close>

definition sentinelIndex :: string where
  "sentinelIndex =
     ''| Doc | Purpose |'' @ [CHR 0x0A] @
     ''|-----|---------|'' @ [CHR 0x0A] @
     ''| [a](a.md) | A |'' @ [CHR 0x0A] @
     ''| [archive/](archive/) | Historical |'' @ [CHR 0x0A]"

definition dupWorld :: world where
  "dupWorld = \<lparr>envStaged = None, gitStaged = None,
               files = [''/repo/docs/README.md'' \<mapsto> sentinelIndex], events = []\<rparr>"

definition dupStaged :: string where
  "dupStaged = ''docs/b.md'' @ [CHR 0x0A] @ ''docs/a.md'' @ [CHR 0x0A] @ ''docs/b.md''"

text \<open>The text \<open>update\<close> writes for \<open>dupWorld\<close> and \<open>dupStaged\<close>.\<close>

definition sentinelWritten :: string where
  "sentinelWritten =
     ''| Doc | Purpose |'' @ [CHR 0x0A] @
     ''|-----|---------|'' @ [CHR 0x0A] @
     ''| [a](a.md) | A |'' @ [CHR 0x0A] @
     ''| [b](b.md) | b |'' @ [CHR 0x0A] @
     ''| [archive/](archive/) | Historical |'' @ [CHR 0x0A]"

text \<open>
  An index of one line, in which the archive cell is the second cell of the row for
  \<open>q.md\<close> and links to \<open>c.md\<close>; the staged files \<open>docs/b.md\<close> and \<open>docs/c.md\<close>; and the
  text \<open>update\<close> writes for them.
\<close>

definition midLineIndex :: string where
  "midLineIndex = ''| [q](q.md) | [archive/](c.md) |''"

definition midLineWorld :: world where
  "midLineWorld = \<lparr>envStaged = None, gitStaged = None,
                   files = [''/repo/docs/README.md'' \<mapsto> midLineIndex], events = []\<rparr>"

definition midLineStaged :: string where
  "midLineStaged = ''docs/b.md'' @ [CHR 0x0A] @ ''docs/c.md''"

definition midLineWritten :: string where
  "midLineWritten =
     ''| [q](q.md) | [b](b.md) | b |'' @ [CHR 0x0A] @
     ''| [c](c.md) | c |'' @ [CHR 0x0A] @
     ''| [archive/](c.md) |''"

section \<open>Facts about the string functions\<close>

lemma startsWith_iff: "startsWith s t \<longleftrightarrow> (\<exists>r. s = t @ r)"
proof
  assume "startsWith s t"
  then have "s = t @ drop (length t) s"
    unfolding startsWith_def by (metis append_take_drop_id)
  then show "\<exists>r. s = t @ r" ..
next
  assume "\<exists>r. s = t @ r"
  then show "startsWith s t" unfolding startsWith_def by auto
qed

lemma findSub_bound: "findSub pat s = Some i \<Longrightarrow> i \<le> length s"
  by (induction s arbitrary: i) (auto split: if_splits option.splits)

text \<open>\<open>findSub\<close> finds the first occurrence, and fails only when there is none.\<close>

lemma findSub_first:
  "findSub pat s = Some i \<Longrightarrow>
     startsWith (drop i s) pat \<and> (\<forall>j < i. \<not> startsWith (drop j s) pat)"
proof (induction s arbitrary: i)
  case Nil
  then show ?case by (auto simp: startsWith_def split: if_splits)
next
  case (Cons c cs)
  show ?case
  proof (cases "startsWith (c # cs) pat")
    case True
    with Cons.prems show ?thesis by simp
  next
    case False
    with Cons.prems obtain k where k: "findSub pat cs = Some k" "i = Suc k"
      by (auto split: option.splits)
    from Cons.IH[OF k(1)] have ih: "startsWith (drop k cs) pat"
      "\<forall>j < k. \<not> startsWith (drop j cs) pat" by auto
    have "\<not> startsWith (drop j (c # cs)) pat" if "j < i" for j
    proof (cases j)
      case 0
      with False show ?thesis by simp
    next
      case (Suc m)
      with that k(2) ih(2) show ?thesis by simp
    qed
    with ih(1) k(2) show ?thesis by simp
  qed
qed

lemma findSub_none:
  "findSub pat s = None \<Longrightarrow> j \<le> length s \<Longrightarrow> \<not> startsWith (drop j s) pat"
proof (induction s arbitrary: j)
  case Nil
  then show ?case by (auto simp: startsWith_def split: if_splits)
next
  case (Cons c cs)
  from Cons.prems(1) have nf: "\<not> startsWith (c # cs) pat" and n: "findSub pat cs = None"
    by (auto split: if_splits option.splits)
  show ?case
  proof (cases j)
    case 0
    with nf show ?thesis by simp
  next
    case (Suc m)
    with Cons.prems(2) Cons.IH[OF n, of m] show ?thesis by simp
  qed
qed

lemma indexOf_upper: "indexOf s pat from \<le> int (length s)"
proof (cases "findSub pat (drop (nat (min (max from 0) (int (length s)))) s)")
  case None
  then show ?thesis by (simp add: indexOf_def Let_def)
next
  case (Some i)
  from findSub_bound[OF Some] show ?thesis
    using Some by (simp add: indexOf_def Let_def)
qed

lemma insertIdx_le: "insertIdx readme sp \<le> length readme"
proof -
  have a: "indexOf readme sp 0 \<le> int (length readme)" by (rule indexOf_upper)
  have b: "indexOf readme [CHR 0x0A, CHR 0x0A] (indexOf readme ''| Doc | Purpose |'' 0)
             \<le> int (length readme)"
    by (rule indexOf_upper)
  show ?thesis using a b unfolding insertIdx_def Let_def by (auto simp: nat_le_iff)
qed

lemma insertRows_longer: "length readme < length (insertRows readme rows sp)"
  using insertIdx_le[of readme sp] by (simp add: insertRows_def Let_def)

section \<open>What the resolver and the warning leave alone\<close>

lemma execGitDiff_frame:
  "files (snd (execGitDiff w)) = files w \<and> writesOf (snd (execGitDiff w)) = writesOf w"
  by (simp add: execGitDiff_def Let_def writesOf_def isWrite_def split: option.splits)

lemma getStagedMdFiles_frame:
  "files (snd (getStagedMdFiles w ov)) = files w \<and>
   writesOf (snd (getStagedMdFiles w ov)) = writesOf w"
  using execGitDiff_frame[of w]
  by (simp add: getStagedMdFiles_def Let_def split: option.splits)

lemma warnRootMdStaged_frame:
  "files (warnRootMdStaged w staged config) = files w \<and>
   writesOf (warnRootMdStaged w staged config) = writesOf w"
  by (simp add: warnRootMdStaged_def Let_def writesOf_def isWrite_def)

section \<open>The staged-file resolver (C7)\<close>

text \<open>
  C7, as stated, covers every override string, the empty one included. With the empty
  string as the explicit override the resolver runs the version-control query and
  returns the staged files, where the lines of the override would give the empty list.
\<close>

theorem getStagedMdFiles_empty_override_counterexample:
  "fst (getStagedMdFiles gitWorld (Some [])) = Inr [''docs/x.md''] \<and>
   events (snd (getStagedMdFiles gitWorld (Some []))) = [ExecGitDiff] \<and>
   filter (\<lambda>s. endsWith s ''.md'') (map trim (splitOn (CHR 0x0A) [])) = []"
  by (simp add: getStagedMdFiles_def execGitDiff_def gitWorld_def endsWith_def trim_def
      isSpaceChar_def)

text \<open>
  C7, amended: whenever the explicit override is a non-empty string, the result is its
  lines, trimmed and filtered to those ending in \<open>.md\<close>, whatever the environment and the
  staging area hold, and the surroundings are returned as they were (no query, no other
  effect). An empty override is not taken as the source of truth: the version-control
  query runs.
\<close>

theorem getStagedMdFiles_nonempty_override:
  "(raw \<noteq> [] \<longrightarrow>
      getStagedMdFiles w (Some raw) =
        (Inr (filter (\<lambda>s. endsWith s ''.md'') (map trim (splitOn (CHR 0x0A) raw))), w))
   \<and> events (snd (getStagedMdFiles w (Some []))) = events w @ [ExecGitDiff]"
  by (simp add: getStagedMdFiles_def execGitDiff_def Let_def split: option.splits)

theorem getStagedMdFiles_nonempty_override_witness:
  "getStagedMdFiles gitWorld (Some (''docs/a.md'' @ [CHR 0x0A] @ ''README.md'')) =
     (Inr [''docs/a.md'', ''README.md''], gitWorld)"
proof -
  have "filter (\<lambda>s. endsWith s ''.md'')
          (map trim (splitOn (CHR 0x0A) (''docs/a.md'' @ [CHR 0x0A] @ ''README.md'')))
        = [''docs/a.md'', ''README.md'']"
    by (simp add: endsWith_def trim_def isSpaceChar_def)
  then show ?thesis
    using getStagedMdFiles_nonempty_override
            [of "''docs/a.md'' @ [CHR 0x0A] @ ''README.md''" gitWorld]
    by simp
qed

section \<open>The doc-set filter (C4)\<close>

text \<open>
  C4, as stated, has the filter return docs-relative paths. On the staged list of the
  repository's own test the kept candidate comes back with its \<open>docs/\<close> prefix.
\<close>

theorem getStagedDocs_strip_counterexample:
  "getStagedDocs [''docs/foo.md''] testConfig = [''docs/foo.md''] \<and>
   getStagedDocs [''docs/foo.md''] testConfig \<noteq> [''foo.md'']"
  by (simp add: getStagedDocs_def testConfig_def startsWith_def)

text \<open>
  C4, amended: the filter keeps exactly the candidates that begin with \<open>docsDir\<close> and a
  slash and whose remainder neither equals nor starts with an entry of \<open>exclude\<close>, in the
  order given, and returns each kept candidate unchanged, the prefix still on it.
\<close>

theorem getStagedDocs_keeps_candidates_unstripped:
  "getStagedDocs staged config =
     filter (\<lambda>p. \<exists>rel. p = docsDir config @ ''/'' @ rel \<and>
                    (\<forall>e \<in> set (exclude config). rel \<noteq> e \<and> \<not> startsWith rel e)) staged
   \<and> (\<forall>p \<in> set (getStagedDocs staged config). startsWith p (docsDir config @ ''/''))"
proof -
  have pred: "(if \<not> startsWith p (docsDir config @ ''/'') then False
       else if list_ex (\<lambda>e. drop (length (docsDir config @ ''/'')) p = e \<or>
                               startsWith (drop (length (docsDir config @ ''/'')) p) e) (exclude config)
            then False else True)
      = (\<exists>rel. p = docsDir config @ ''/'' @ rel \<and>
                    (\<forall>e \<in> set (exclude config). rel \<noteq> e \<and> \<not> startsWith rel e))" for p
  proof (cases "startsWith p (docsDir config @ ''/'')")
    case False
    then show ?thesis by (auto simp: startsWith_iff)
  next
    case True
    then obtain r where r: "p = (docsDir config @ ''/'') @ r" unfolding startsWith_iff by blast
    then have d: "drop (length (docsDir config @ ''/'')) p = r" by simp
    have "(\<exists>rel. p = docsDir config @ ''/'' @ rel \<and>
                 (\<forall>e \<in> set (exclude config). rel \<noteq> e \<and> \<not> startsWith rel e))
          = (\<forall>e \<in> set (exclude config). r \<noteq> e \<and> \<not> startsWith r e)"
      using r by auto
    then show ?thesis using True d by (simp add: Let_def list_ex_iff del: append.simps)
  qed
  have eq: "getStagedDocs staged config =
     filter (\<lambda>p. \<exists>rel. p = docsDir config @ ''/'' @ rel \<and>
                    (\<forall>e \<in> set (exclude config). rel \<noteq> e \<and> \<not> startsWith rel e)) staged"
    by (simp only: getStagedDocs_def Let_def pred)
  show ?thesis
  proof (rule conjI[OF eq])
    show "\<forall>p \<in> set (getStagedDocs staged config). startsWith p (docsDir config @ ''/'')"
      unfolding eq by (auto simp: startsWith_iff)
  qed
qed

theorem getStagedDocs_keeps_candidates_unstripped_witness:
  "filter (\<lambda>p. \<exists>rel. p = docsDir testConfig @ ''/'' @ rel \<and>
                  (\<forall>e \<in> set (exclude testConfig). rel \<noteq> e \<and> \<not> startsWith rel e)) stagedExample
     = [''docs/foo.md'']"
proof -
  have "getStagedDocs stagedExample testConfig = [''docs/foo.md'']"
    by (simp add: getStagedDocs_def testConfig_def stagedExample_def startsWith_def)
  then show ?thesis
    using getStagedDocs_keeps_candidates_unstripped[of stagedExample testConfig] by simp
qed

section \<open>The table parser (C5)\<close>

lemma startsWith_includesStr: "startsWith l ''|'' \<Longrightarrow> includesStr l ''|''"
  by (cases l) (auto simp: includesStr_def startsWith_def)

lemma parseLoop_stays_in: "fst (parseLoop ls True rows) = True"
  by (induction ls arbitrary: rows) (auto split: option.splits)

text \<open>
  C5, as stated, has a line that starts with a pipe and holds no second pipe leave the
  parser outside the table region. The line \<open>|x\<close> holds one pipe and enters the region:
  the line \<open>y\<close> after it then ends the scan, and the row below is never read, where it is
  read when the first line does not start with a pipe.
\<close>

theorem parseTable_single_pipe_counterexample:
  "fst (parseLoop [''|x''] False []) = True \<and>
   length (filter (\<lambda>c. c = CHR ''|'') ''|x'') = 1 \<and>
   parseTable (''|x'' @ [CHR 0x0A] @ ''y'' @ [CHR 0x0A] @ ''| [a](a.md) |'') = [] \<and>
   parseTable (''x'' @ [CHR 0x0A] @ ''y'' @ [CHR 0x0A] @ ''| [a](a.md) |'')
     = [\<lparr>title = ''a'', path = ''a.md'', purpose = None\<rparr>]"
  by (simp add: parseTable_def startsWith_def includesStr_def matchLinkAt_def expectChar_def
      trim_def isSpaceChar_def)

text \<open>
  C5, amended: the parser enters the table region exactly when it meets a line that
  starts with a pipe. The second test of the guard, that the line contains a pipe, holds
  of every such line, so a line with a single leading pipe starts the region like any
  other.
\<close>

theorem parseLoop_enters_on_leading_pipe:
  "(startsWith l ''|'' \<and> includesStr l ''|'') = startsWith l ''|'' \<and>
   fst (parseLoop ls False rows) = (\<exists>l \<in> set ls. startsWith l ''|'')"
proof
  show "(startsWith l ''|'' \<and> includesStr l ''|'') = startsWith l ''|''"
    using startsWith_includesStr[of l] by blast
next
  show "fst (parseLoop ls False rows) = (\<exists>l \<in> set ls. startsWith l ''|'')"
  proof (induction ls arbitrary: rows)
    case Nil
    then show ?case by simp
  next
    case (Cons x xs)
    show ?case
    proof (cases "startsWith x ''|''")
      case True
      then have "includesStr x ''|''" by (rule startsWith_includesStr)
      with True show ?thesis by (simp add: parseLoop_stays_in split: option.splits)
    next
      case False
      then show ?thesis using Cons.IH by simp
    qed
  qed
qed

section \<open>Inserting no rows (C10)\<close>

text \<open>
  C10: \<open>insertRows\<close> on an empty row sequence is not the identity. Whatever the document
  and the sentinel, it splices one newline at the insertion offset (which lies inside the
  document), so the result is one character longer than the input and differs from it.
\<close>

theorem insertRows_empty_not_identity:
  "insertRows readme [] sentinelPattern =
     take (insertIdx readme sentinelPattern) readme @ [CHR 0x0A] @
     drop (insertIdx readme sentinelPattern) readme
   \<and> insertIdx readme sentinelPattern \<le> length readme
   \<and> length (insertRows readme [] sentinelPattern) = Suc (length readme)
   \<and> insertRows readme [] sentinelPattern \<noteq> readme"
proof -
  let ?i = "insertIdx readme sentinelPattern"
  have eq: "insertRows readme [] sentinelPattern = take ?i readme @ [CHR 0x0A] @ drop ?i readme"
    by (simp add: insertRows_def Let_def)
  have le: "?i \<le> length readme" by (rule insertIdx_le)
  have len: "length (insertRows readme [] sentinelPattern) = Suc (length readme)"
    using le by (simp add: eq)
  then have "insertRows readme [] sentinelPattern \<noteq> readme" by (metis n_not_Suc_n)
  with eq le len show ?thesis by blast
qed

section \<open>A missing index file (C8)\<close>

text \<open>
  C8: when the configured index file does not exist, \<open>update\<close> returns
  \<open>updated = False\<close> with no added rows and writes nothing, and \<open>check\<close> returns
  \<open>True\<close>: in both entry points the missing file is a silent skip, not an error. The
  statement is for the runs in which the staged-file resolver returns its list.
\<close>

theorem missing_index_is_no_change:
  assumes missing: "files w (pathJoin h root (indexFile config)) = None"
    and resolved: "fst (getStagedMdFiles w ov) = Inr staged"
  shows "fst (update h w root config ov) = Inr \<lparr>updated = False, added = []\<rparr>
       \<and> files (snd (update h w root config ov)) = files w
       \<and> writesOf (snd (update h w root config ov)) = writesOf w
       \<and> fst (check h w root config ov) = Inr True
       \<and> files (snd (check h w root config ov)) = files w
       \<and> writesOf (snd (check h w root config ov)) = writesOf w"
proof -
  obtain w1 where g: "getStagedMdFiles w ov = (Inr staged, w1)"
    using resolved by (cases "getStagedMdFiles w ov") auto
  have f1: "files w1 = files w" and e1: "writesOf w1 = writesOf w"
    using getStagedMdFiles_frame[of w ov] g by auto
  let ?w2 = "warnRootMdStaged w1 staged config"
  have f2: "files ?w2 = files w" and e2: "writesOf ?w2 = writesOf w"
    using warnRootMdStaged_frame[of w1 staged config] f1 e1 by auto
  have m2: "files ?w2 (pathJoin h root (indexFile config)) = None"
    using f2 missing by simp
  have m1: "files w1 (pathJoin h root (indexFile config)) = None"
    using f1 missing by simp
  have u: "update h w root config ov = (Inr noChange, if staged = [] then w1 else ?w2)"
    using g m2 by (simp add: update_def Let_def)
  have c: "check h w root config ov = (Inr True, w1)"
    using g m1 by (simp add: check_def Let_def)
  show ?thesis
    using u c f1 e1 f2 e2 by (simp add: noChange_def)
qed

theorem missing_index_is_no_change_witness:
  "files gitWorld (pathJoin nodeHost ''/repo'' (indexFile testConfig)) = None
   \<and> fst (getStagedMdFiles gitWorld (Some ''docs/b.md'')) = Inr [''docs/b.md'']
   \<and> fst (update nodeHost gitWorld ''/repo'' testConfig (Some ''docs/b.md''))
       = Inr \<lparr>updated = False, added = []\<rparr>
   \<and> writesOf (snd (update nodeHost gitWorld ''/repo'' testConfig (Some ''docs/b.md''))) = []
   \<and> fst (check nodeHost gitWorld ''/repo'' testConfig (Some ''docs/b.md'')) = Inr True"
proof -
  have m: "files gitWorld (pathJoin nodeHost ''/repo'' (indexFile testConfig)) = None"
    by (simp add: gitWorld_def)
  have r: "fst (getStagedMdFiles gitWorld (Some ''docs/b.md'')) = Inr [''docs/b.md'']"
    by (simp add: getStagedMdFiles_def endsWith_def trim_def isSpaceChar_def)
  have w: "writesOf gitWorld = []"
    by (simp add: writesOf_def gitWorld_def)
  from missing_index_is_no_change[OF m r] m r w show ?thesis by simp
qed

text \<open>
  When the resolver fails instead, its failure is what both entry points return, and
  still nothing is written.
\<close>

lemma resolver_failure_propagates:
  assumes "fst (getStagedMdFiles w ov) = Inl e"
  shows "fst (update h w root config ov) = Inl e \<and> fst (check h w root config ov) = Inl e
       \<and> files (snd (update h w root config ov)) = files w
       \<and> writesOf (snd (update h w root config ov)) = writesOf w"
proof -
  obtain w1 where g: "getStagedMdFiles w ov = (Inl e, w1)"
    using assms by (cases "getStagedMdFiles w ov") auto
  have "files w1 = files w" and "writesOf w1 = writesOf w"
    using getStagedMdFiles_frame[of w ov] g by auto
  then show ?thesis using g by (simp add: update_def check_def Let_def)
qed

section \<open>Who writes the index (C9)\<close>

text \<open>
  C9: \<open>check\<close> never writes a file, whatever it returns; \<open>update\<close> writes exactly when it
  reports \<open>updated = True\<close>, and then it writes the index file once, with the rows it
  reports spliced into the text it read, which changes that text. When it reports
  \<open>updated = False\<close>, and when it fails, no file is written and every file is as before.
\<close>

theorem check_never_writes_update_writes_iff_updated:
  "files (snd (check h w root config ov)) = files w
   \<and> writesOf (snd (check h w root config ov)) = writesOf w
   \<and> (case update h w root config ov of
         (Inl e, w') \<Rightarrow> files w' = files w \<and> writesOf w' = writesOf w
       | (Inr res, w') \<Rightarrow>
           if updated res
           then (\<exists>readme. files w (pathJoin h root (indexFile config)) = Some readme
                   \<and> files w' = (files w)(pathJoin h root (indexFile config) \<mapsto>
                                     insertRows readme (added res) defaultSentinel)
                   \<and> writesOf w' = writesOf w @
                        [WriteFile (pathJoin h root (indexFile config))
                           (insertRows readme (added res) defaultSentinel)]
                   \<and> insertRows readme (added res) defaultSentinel \<noteq> readme)
           else files w' = files w \<and> writesOf w' = writesOf w)"
proof -
  obtain r w1 where g: "getStagedMdFiles w ov = (r, w1)" by (cases "getStagedMdFiles w ov")
  have f1: "files w1 = files w" and e1: "writesOf w1 = writesOf w"
    using getStagedMdFiles_frame[of w ov] g by auto
  have chk: "files (snd (check h w root config ov)) = files w
      \<and> writesOf (snd (check h w root config ov)) = writesOf w"
    using g f1 e1 by (simp add: check_def Let_def split: sum.splits option.splits)
  have upd: "(case update h w root config ov of
         (Inl e, w') \<Rightarrow> files w' = files w \<and> writesOf w' = writesOf w
       | (Inr res, w') \<Rightarrow>
           if updated res
           then (\<exists>readme. files w (pathJoin h root (indexFile config)) = Some readme
                   \<and> files w' = (files w)(pathJoin h root (indexFile config) \<mapsto>
                                     insertRows readme (added res) defaultSentinel)
                   \<and> writesOf w' = writesOf w @
                        [WriteFile (pathJoin h root (indexFile config))
                           (insertRows readme (added res) defaultSentinel)]
                   \<and> insertRows readme (added res) defaultSentinel \<noteq> readme)
           else files w' = files w \<and> writesOf w' = writesOf w)"
  proof (cases r)
    case (Inl e)
    then show ?thesis using g f1 e1 by (simp add: update_def Let_def)
  next
    case (Inr staged)
    let ?w2 = "warnRootMdStaged w1 staged config"
    have f2: "files ?w2 = files w" and e2: "writesOf ?w2 = writesOf w"
      using warnRootMdStaged_frame[of w1 staged config] f1 e1 by auto
    have ne: "insertRows readme rows defaultSentinel \<noteq> readme" for readme rows
      using insertRows_longer[of readme rows defaultSentinel] by auto
    show ?thesis
      using g Inr f1 e1 f2 e2 ne
      by (simp add: update_def Let_def noChange_def writesOf_def isWrite_def
          split: sum.splits option.splits prod.splits)
  qed
  from chk upd show ?thesis by blast
qed

section \<open>No path is inserted twice (C3)\<close>

text \<open>
  The loop of \<open>computeNewRows\<close> only appends rows; the paths of the appended rows are
  pairwise different, none was in the set it was given, and the set it leaves is the
  given one with those paths.
\<close>

lemma computeNewRowsLoop_new:
  "computeNewRowsLoop h w root config docs ex acc = Inr (rows, seen) \<Longrightarrow>
   \<exists>new. rows = acc @ new \<and> distinct (map path new) \<and> set (map path new) \<inter> ex = {}
         \<and> seen = ex \<union> set (map path new)"
proof (induction docs arbitrary: ex acc)
  case Nil
  then show ?case by simp
next
  case (Cons p docs)
  show ?case
  proof (cases "stripDocsDir h (docsDir config) p")
    case (Inl e)
    with Cons.prems show ?thesis by simp
  next
    case (Inr pth)
    show ?thesis
    proof (cases "pth \<in> ex")
      case True
      with Cons.prems Inr have "computeNewRowsLoop h w root config docs ex acc = Inr (rows, seen)"
        by simp
      from Cons.IH[OF this] show ?thesis .
    next
      case False
      define row where "row = \<lparr>title = stripMd pth, path = pth,
          purpose = Some (case getFirstHeading h w root p of
                            None \<Rightarrow> hyphensToSpaces (stripMd pth)
                          | Some heading \<Rightarrow>
                              if heading = [] then hyphensToSpaces (stripMd pth) else heading)\<rparr>"
      from Cons.prems Inr False
      have "computeNewRowsLoop h w root config docs (insert pth ex) (acc @ [row]) = Inr (rows, seen)"
        by (simp add: Let_def row_def)
      from Cons.IH[OF this] obtain new where new: "rows = (acc @ [row]) @ new"
        "distinct (map path new)" "set (map path new) \<inter> insert pth ex = {}"
        "seen = insert pth ex \<union> set (map path new)" by blast
      have p: "path row = pth" by (simp add: row_def)
      have "rows = acc @ (row # new)" using new(1) by simp
      moreover have "distinct (map path (row # new))" using new(2,3) p by auto
      moreover have "set (map path (row # new)) \<inter> ex = {}" using new(3) p False by auto
      moreover have "seen = ex \<union> set (map path (row # new))" using new(4) p by auto
      ultimately show ?thesis by blast
    qed
  qed
qed

lemma computeNewRows_new:
  assumes "computeNewRows h w root stagedDocs ex config = Inr (rows, seen)"
  shows "distinct (map path rows) \<and> set (map path rows) \<inter> ex = {}"
  using computeNewRowsLoop_new[OF assms[unfolded computeNewRows_def]] by auto

text \<open>What \<open>update\<close> has done when it reports \<open>updated = True\<close>.\<close>

lemma update_added:
  assumes "fst (update h w root config ov) = Inr res" and "updated res"
  shows "\<exists>staged w1 readme seen.
       getStagedMdFiles w ov = (Inr staged, w1)
     \<and> getStagedDocs staged config \<noteq> []
     \<and> files w (pathJoin h root (indexFile config)) = Some readme
     \<and> computeNewRows h (warnRootMdStaged w1 staged config) root (getStagedDocs staged config)
          (set (map path (parseTable readme))) config = Inr (added res, seen)
     \<and> added res \<noteq> []"
proof -
  obtain r w1 where g: "getStagedMdFiles w ov = (r, w1)" by (cases "getStagedMdFiles w ov")
  have f1: "files w1 = files w" using getStagedMdFiles_frame[of w ov] g by auto
  show ?thesis
  proof (cases r)
    case (Inl e)
    with assms g show ?thesis by (simp add: update_def Let_def)
  next
    case (Inr staged)
    let ?w2 = "warnRootMdStaged w1 staged config"
    have f2: "files ?w2 = files w" using warnRootMdStaged_frame[of w1 staged config] f1 by auto
    show ?thesis
      using assms g Inr f2
      by (auto simp add: update_def Let_def noChange_def
          split: sum.splits option.splits prod.splits if_splits)
  qed
qed

lemma update_not_updated:
  assumes "fst (update h w root config ov) = Inr res" and "\<not> updated res"
  shows "added res = []"
  using assms
  by (auto simp add: update_def Let_def noChange_def
      split: sum.splits option.splits prod.splits if_splits)

text \<open>The lines of a text split at a newline, and at the rows joined by newlines.\<close>

lemma splitOn_nonempty: "splitOn c s \<noteq> []"
  by (induction s) (auto split: list.splits)

lemma splitOn_append_sep: "splitOn c (a @ c # b) = splitOn c a @ splitOn c b"
proof (induction a)
  case Nil
  then show ?case by simp
next
  case (Cons x a)
  show ?case
  proof (cases "x = c")
    case True
    then show ?thesis using Cons.IH by simp
  next
    case False
    obtain l ls where l: "splitOn c a = l # ls"
      using splitOn_nonempty[of c a] by (cases "splitOn c a") auto
    with False Cons.IH show ?thesis by simp
  qed
qed

lemma splitOn_no_sep: "c \<notin> set s \<Longrightarrow> splitOn c s = [s]"
  by (induction s) auto

lemma splitOn_joined:
  "Ls \<noteq> [] \<Longrightarrow> \<forall>l \<in> set Ls. c \<notin> set l \<Longrightarrow>
   splitOn c (joinWith [c] Ls @ c # suf) = Ls @ splitOn c suf"
proof (induction "[c]" Ls rule: joinWith.induct)
  case 1
  then show ?case by simp
next
  case (2 x)
  then show ?case by (simp add: splitOn_append_sep splitOn_no_sep)
next
  case (3 x y ys)
  have "splitOn c (joinWith [c] (x # y # ys) @ c # suf)
        = splitOn c (x @ c # (joinWith [c] (y # ys) @ c # suf))" by simp
  also have "\<dots> = splitOn c x @ splitOn c (joinWith [c] (y # ys) @ c # suf)"
    by (rule splitOn_append_sep)
  also have "\<dots> = [x] @ (y # ys) @ splitOn c suf"
    using 3 by (simp add: splitOn_no_sep)
  finally show ?case by simp
qed

text \<open>A rendered row that reads back is a table line, and its link is the row's.\<close>

lemma matchLinkAt_renderRow:
  assumes "readsBack r"
  shows "matchLinkAt (renderRow r) = Some (title r, path r)"
proof -
  from assms have t: "title r \<noteq> []" "\<forall>x \<in> set (title r). x \<noteq> CHR '']''"
    and p: "path r \<noteq> []" "\<forall>x \<in> set (path r). x \<noteq> CHR '')''"
    by (auto simp: readsBack_def)
  have tw1: "takeWhile (\<lambda>c. c \<noteq> CHR '']'') (title r @ CHR '']'' # rest) = title r" for rest
    using t(2) by (simp add: takeWhile_append2)
  have dw1: "dropWhile (\<lambda>c. c \<noteq> CHR '']'') (title r @ CHR '']'' # rest) = CHR '']'' # rest" for rest
    using t(2) by (simp add: dropWhile_append2)
  have tw2: "takeWhile (\<lambda>c. c \<noteq> CHR '')'') (path r @ CHR '')'' # rest) = path r" for rest
    using p(2) by (simp add: takeWhile_append2)
  have dw2: "dropWhile (\<lambda>c. c \<noteq> CHR '')'') (path r @ CHR '')'' # rest) = CHR '')'' # rest" for rest
    using p(2) by (simp add: dropWhile_append2)
  show ?thesis
    using t(1) p(1)
    by (simp add: renderRow_def matchLinkAt_def expectChar_def isSpaceChar_def tw1 dw1 tw2 dw2)
qed

lemma renderRow_table_line:
  "startsWith (renderRow r) ''|'' \<and> includesStr (renderRow r) ''|''"
  by (simp add: renderRow_def startsWith_def includesStr_def)

lemma linkMatch_renderRow:
  assumes "readsBack r"
  shows "linkMatch (renderRow r) = Some (title r, path r)"
proof -
  obtain cs where cs: "renderRow r = CHR ''|'' # cs" by (simp add: renderRow_def)
  from matchLinkAt_renderRow[OF assms] show ?thesis
    unfolding cs by simp
qed

text \<open>The parser's loop: its rows so far are a prefix of its result.\<close>

lemma parseLoop_acc:
  "parseLoop ls b (rs @ rs') = (fst (parseLoop ls b rs'), rs @ snd (parseLoop ls b rs'))"
proof (induction ls arbitrary: b rs')
  case Nil
  then show ?case by simp
next
  case (Cons l ls)
  have a: "parseLoop ls b' ((rs @ rs') @ x)
             = (fst (parseLoop ls b' (rs' @ x)), rs @ snd (parseLoop ls b' (rs' @ x)))"
    for b' x using Cons.IH[of b' "rs' @ x"] by simp
  show ?case
    using Cons.IH a by (auto split: option.splits)
qed

lemma parseLoop_rows:
  "snd (parseLoop ls b rs) = rs @ snd (parseLoop ls b [])"
  using parseLoop_acc[of ls b rs "[]"] by simp

text \<open>
  Started inside the table region, the loop reads what it reads when started outside,
  or stops before it reads anything.
\<close>

lemma parseLoop_in_table_or_same:
  "snd (parseLoop S True rs) = rs \<or> snd (parseLoop S True rs) = snd (parseLoop S b rs)"
proof (induction S arbitrary: rs)
  case Nil
  then show ?case by simp
next
  case (Cons l S)
  show ?case
  proof (cases "startsWith l ''|'' \<and> includesStr l ''|''")
    case True
    then show ?thesis by (simp split: option.splits)
  next
    case False
    then show ?thesis using Cons.IH[of rs] by (cases b) auto
  qed
qed

lemma parseLoop_rendered:
  "list_all readsBack R \<Longrightarrow> R \<noteq> [] \<Longrightarrow>
   parseLoop (map renderRow R @ S) b rs = parseLoop S True (rs @ map parsedRow R)"
proof (induction R arbitrary: b rs)
  case Nil
  then show ?case by simp
next
  case (Cons r R)
  from Cons.prems have rb: "readsBack r" and all: "list_all readsBack R" by auto
  have step: "parseLoop (renderRow r # ls) b rs = parseLoop ls True (rs @ [parsedRow r])" for ls
    using renderRow_table_line[of r] linkMatch_renderRow[OF rb]
    by (simp add: parsedRow_def)
  show ?case
  proof (cases "R = []")
    case True
    then show ?thesis using step by simp
  next
    case False
    from Cons.IH[OF all False, of True "rs @ [parsedRow r]"] step show ?thesis by simp
  qed
qed

text \<open>
  Rows that read back, spliced as whole lines between the lines \<open>P\<close> and the lines \<open>S\<close>:
  the parser returns what it returned without them, or that with the new rows put in at
  one place, the rows after that place kept or all dropped.
\<close>

lemma parseLoop_spliced:
  assumes "list_all readsBack R" and "R \<noteq> []"
  shows "snd (parseLoop (P @ map renderRow R @ S) b rs) = snd (parseLoop (P @ S) b rs)
       \<or> (\<exists>A B. snd (parseLoop (P @ S) b rs) = A @ B
             \<and> (snd (parseLoop (P @ map renderRow R @ S) b rs) = A @ map parsedRow R
                \<or> snd (parseLoop (P @ map renderRow R @ S) b rs) = A @ map parsedRow R @ B))"
proof (induction P arbitrary: b rs)
  case Nil
  let ?N = "map parsedRow R"
  have new: "snd (parseLoop (map renderRow R @ S) b rs) = rs @ ?N @ snd (parseLoop S True [])"
    using parseLoop_rendered[OF assms, of S b rs] parseLoop_rows[of S True "rs @ ?N"] by simp
  have old: "snd (parseLoop S b rs) = rs @ snd (parseLoop S b [])"
    by (rule parseLoop_rows)
  from parseLoop_in_table_or_same[of S "[]" b]
  have "snd (parseLoop S True []) = [] \<or> snd (parseLoop S True []) = snd (parseLoop S b [])" .
  then show ?case
    using new old by auto
next
  case (Cons l P)
  show ?case
  proof (cases "startsWith l ''|'' \<and> includesStr l ''|''")
    case True
    then show ?thesis using Cons.IH by (simp split: option.splits)
  next
    case False
    then show ?thesis using Cons.IH[of b rs] by auto
  qed
qed

lemma spliced_distinct:
  assumes old: "distinct (map path old)"
    and new: "distinct (map path R)" "set (map path R) \<inter> set (map path old) = {}"
    and shape: "new = old \<or>
        (\<exists>A B. old = A @ B \<and> (new = A @ map parsedRow R \<or> new = A @ map parsedRow R @ B))"
  shows "distinct (map path new)"
proof -
  have p: "path \<circ> parsedRow = path" by (auto simp: parsedRow_def)
  from shape show ?thesis
  proof
    assume "new = old" with old show ?thesis by simp
  next
    assume "\<exists>A B. old = A @ B \<and> (new = A @ map parsedRow R \<or> new = A @ map parsedRow R @ B)"
    then obtain A B where ab: "old = A @ B"
      and n: "new = A @ map parsedRow R \<or> new = A @ map parsedRow R @ B" by blast
    from n show ?thesis
    proof
      assume "new = A @ map parsedRow R"
      then show ?thesis using old new ab by (auto simp: p)
    next
      assume "new = A @ map parsedRow R @ B"
      then show ?thesis using old new ab by (auto simp: p)
    qed
  qed
qed

text \<open>The lines of the text \<open>insertRows\<close> returns, when the offset is at the start of a line.\<close>

lemma spliced_lines:
  assumes al: "atLineStart readme i" and le: "i \<le> length readme"
    and ne: "R \<noteq> []" and rb: "list_all readsBack R"
  shows "\<exists>P S. splitOn (CHR 0x0A) readme = P @ S
     \<and> splitOn (CHR 0x0A)
          (take i readme @ joinWith [CHR 0x0A] (map renderRow R) @ [CHR 0x0A] @ drop i readme)
         = P @ map renderRow R @ S"
proof -
  let ?nl = "CHR 0x0A"
  let ?Ls = "map renderRow R"
  have Ls: "?Ls \<noteq> []" "\<forall>l \<in> set ?Ls. ?nl \<notin> set l"
    using ne rb by (auto simp: list_all_iff readsBack_def)
  have joined: "splitOn ?nl (joinWith [?nl] ?Ls @ ?nl # suf) = ?Ls @ splitOn ?nl suf" for suf
    by (rule splitOn_joined[OF Ls])
  show ?thesis
  proof (cases "i = 0")
    case True
    have "splitOn ?nl readme = [] @ splitOn ?nl readme" by simp
    moreover have "splitOn ?nl (take i readme @ joinWith [?nl] ?Ls @ [?nl] @ drop i readme)
        = [] @ ?Ls @ splitOn ?nl readme"
      using True joined[of readme] by simp
    ultimately show ?thesis by blast
  next
    case False
    with al have c: "readme ! (i - 1) = ?nl" by (simp add: atLineStart_def)
    from False le have lt: "i - 1 < length readme" by simp
    have tk: "take i readme = take (i - 1) readme @ [?nl]"
      using take_Suc_conv_app_nth[OF lt] c False by simp
    have whole: "readme = take (i - 1) readme @ ?nl # drop i readme"
      using id_take_nth_drop[OF lt] c False by simp
    have old: "splitOn ?nl readme = splitOn ?nl (take (i - 1) readme) @ splitOn ?nl (drop i readme)"
      using splitOn_append_sep[of ?nl "take (i - 1) readme" "drop i readme"] whole by simp
    have "take i readme @ joinWith [?nl] ?Ls @ [?nl] @ drop i readme
        = take (i - 1) readme @ ?nl # (joinWith [?nl] ?Ls @ ?nl # drop i readme)"
      using tk by simp
    then have new: "splitOn ?nl (take i readme @ joinWith [?nl] ?Ls @ [?nl] @ drop i readme)
        = splitOn ?nl (take (i - 1) readme) @ ?Ls @ splitOn ?nl (drop i readme)"
      using splitOn_append_sep[of ?nl "take (i - 1) readme" "joinWith [?nl] ?Ls @ ?nl # drop i readme"]
        joined[of "drop i readme"] by simp
    from old new show ?thesis by blast
  qed
qed

lemma insertRows_keeps_unique:
  assumes al: "atLineStart readme (insertIdx readme sp)"
    and ne: "R \<noteq> []" and rb: "list_all readsBack R"
    and old: "distinct (map path (parseTable readme))"
    and new: "distinct (map path R)" "set (map path R) \<inter> set (map path (parseTable readme)) = {}"
  shows "distinct (map path (parseTable (insertRows readme R sp)))"
proof -
  from spliced_lines[OF al insertIdx_le ne rb] obtain P S where
    o: "splitOn (CHR 0x0A) readme = P @ S"
    and n: "splitOn (CHR 0x0A) (insertRows readme R sp) = P @ map renderRow R @ S"
    by (auto simp: insertRows_def Let_def)
  from parseLoop_spliced[OF rb ne, of P S False "[]"]
  have shape: "parseTable (insertRows readme R sp) = parseTable readme
       \<or> (\<exists>A B. parseTable readme = A @ B
             \<and> (parseTable (insertRows readme R sp) = A @ map parsedRow R
                \<or> parseTable (insertRows readme R sp) = A @ map parsedRow R @ B))"
    by (simp add: parseTable_def o n)
  from spliced_distinct[OF old new shape] show ?thesis .
qed

text \<open>The files after \<open>update\<close>.\<close>

lemma update_effect:
  "case update h w root config ov of
     (Inl e, w') \<Rightarrow> files w' = files w
   | (Inr res, w') \<Rightarrow>
       if updated res
       then (\<exists>readme. files w (pathJoin h root (indexFile config)) = Some readme
               \<and> files w' = (files w)(pathJoin h root (indexFile config) \<mapsto>
                                 insertRows readme (added res) defaultSentinel))
       else files w' = files w"
proof -
  obtain r w1 where g: "getStagedMdFiles w ov = (r, w1)" by (cases "getStagedMdFiles w ov")
  have f1: "files w1 = files w" using getStagedMdFiles_frame[of w ov] g by auto
  show ?thesis
  proof (cases r)
    case (Inl e)
    then show ?thesis using g f1 by (simp add: update_def Let_def)
  next
    case (Inr staged)
    have f2: "files (warnRootMdStaged w1 staged config) = files w"
      using warnRootMdStaged_frame[of w1 staged config] f1 by auto
    show ?thesis
      using g Inr f1 f2
      by (simp add: update_def Let_def noChange_def split: sum.splits option.splits prod.splits)
  qed
qed

text \<open>
  When the paths parsed from the index are unique, so are the paths parsed from the
  index as \<open>update\<close> leaves it, provided that the rows it adds, if any, are spliced at the
  start of a line and read back.
\<close>

lemma update_keeps_parsed_paths_unique:
  assumes u: "fst (update h w root config ov) = Inr res"
    and r: "files w (pathJoin h root (indexFile config)) = Some readme"
    and d: "distinct (map path (parseTable readme))"
    and c: "updated res \<Longrightarrow>
              atLineStart readme (insertIdx readme defaultSentinel) \<and> list_all readsBack (added res)"
    and wr: "files (snd (update h w root config ov)) (pathJoin h root (indexFile config)) = Some written"
  shows "distinct (map path (parseTable written))"
proof -
  obtain w' where uw: "update h w root config ov = (Inr res, w')"
    using u by (cases "update h w root config ov") auto
  show ?thesis
  proof (cases "updated res")
    case False
    with update_effect[where h = h and w = w and root = root and config = config and ov = ov] uw
    have "files w' = files w" by simp
    with wr uw r have "written = readme" by simp
    with d show ?thesis by simp
  next
    case True
    with update_effect[where h = h and w = w and root = root and config = config and ov = ov] uw r
    have "files w' = (files w)(pathJoin h root (indexFile config) \<mapsto>
                                 insertRows readme (added res) defaultSentinel)" by simp
    with wr uw have w: "written = insertRows readme (added res) defaultSentinel" by simp
    from update_added[OF u True] r obtain w2 docs seen where
      cn: "computeNewRows h w2 root docs (set (map path (parseTable readme))) config
         = Inr (added res, seen)" and ne: "added res \<noteq> []"
      by fastforce
    from computeNewRows_new[OF cn] have
      new: "distinct (map path (added res))"
        "set (map path (added res)) \<inter> set (map path (parseTable readme)) = {}" by auto
    from c[OF True] have al: "atLineStart readme (insertIdx readme defaultSentinel)"
      and rb: "list_all readsBack (added res)" by auto
    from insertRows_keeps_unique[OF al ne rb d new] w show ?thesis by simp
  qed
qed

text \<open>
  C3, as stated, has every operation preserve the uniqueness of the paths among the
  table's rows. On \<open>midLineIndex\<close> the parser reads the one path \<open>q.md\<close>. For the staged
  files \<open>docs/b.md\<close> and \<open>docs/c.md\<close>, \<open>update\<close> adds both rows and splices them where the
  sentinel text stands, in the middle of the line; the archive cell then starts a line of
  its own, and the parser reads \<open>c.md\<close> twice from the text that was written.
\<close>

theorem update_written_table_duplicate_counterexample:
  "map path (parseTable midLineIndex) = [''q.md'']
   \<and> fst (update nodeHost midLineWorld ''/repo'' testConfig (Some midLineStaged))
      = Inr \<lparr>updated = True,
             added = [\<lparr>title = ''b'', path = ''b.md'', purpose = Some ''b''\<rparr>,
                      \<lparr>title = ''c'', path = ''c.md'', purpose = Some ''c''\<rparr>]\<rparr>
   \<and> files (snd (update nodeHost midLineWorld ''/repo'' testConfig (Some midLineStaged)))
        ''/repo/docs/README.md'' = Some midLineWritten
   \<and> map path (parseTable midLineWritten) = [''q.md'', ''c.md'', ''c.md'']
   \<and> \<not> distinct (map path (parseTable midLineWritten))"
  by code_simp

text \<open>
  C3, amended: a path already in the index table (one the parser reads from the index)
  is never inserted again, by \<open>computeNewRows\<close> or by \<open>update\<close>, however often the batch
  names it: the rows \<open>computeNewRows\<close> returns have pairwise different paths, none of
  them in the set of indexed paths, and the rows \<open>update\<close> adds have pairwise different
  paths, none of them the path of a row parsed from the index it read, so the parsed rows
  together with the added rows have unique paths when the parsed rows have. Among the
  rows parsed from the index file itself, uniqueness of the paths is preserved by
  \<open>check\<close>, which leaves every file as it is, by an \<open>update\<close> that adds nothing, and by
  an \<open>update\<close> that adds rows when these are spliced at the start of a line and each of
  them reads back (title not empty and without a closing bracket, path without a closing
  parenthesis, no line break in the rendered row).
\<close>

theorem no_path_inserted_twice:
  "(computeNewRows h w root stagedDocs existingPaths config = Inr (rows, seen) \<longrightarrow>
      distinct (map path rows) \<and> set (map path rows) \<inter> existingPaths = {})
   \<and> (fst (update h w root config ov) = Inr res \<longrightarrow>
        files w (pathJoin h root (indexFile config)) = Some readme \<longrightarrow>
          distinct (map path (added res))
          \<and> set (map path (added res)) \<inter> set (map path (parseTable readme)) = {}
          \<and> (distinct (map path (parseTable readme)) \<longrightarrow>
                distinct (map path (parseTable readme @ added res)))
          \<and> (distinct (map path (parseTable readme)) \<longrightarrow>
               (updated res \<longrightarrow>
                  atLineStart readme (insertIdx readme defaultSentinel) \<and>
                  list_all readsBack (added res)) \<longrightarrow>
               files (snd (update h w root config ov)) (pathJoin h root (indexFile config))
                 = Some written \<longrightarrow>
               distinct (map path (parseTable written))))
   \<and> files (snd (check h w root config ov)) = files w"
proof (intro conjI impI)
  assume "computeNewRows h w root stagedDocs existingPaths config = Inr (rows, seen)"
  from computeNewRows_new[OF this]
  show "distinct (map path rows)" and "set (map path rows) \<inter> existingPaths = {}" by auto
next
  assume u: "fst (update h w root config ov) = Inr res"
    and r: "files w (pathJoin h root (indexFile config)) = Some readme"
  have both: "distinct (map path (added res))
      \<and> set (map path (added res)) \<inter> set (map path (parseTable readme)) = {}"
  proof (cases "updated res")
    case True
    from update_added[OF u True] r obtain w2 docs seen where
      "computeNewRows h w2 root docs (set (map path (parseTable readme))) config
         = Inr (added res, seen)"
      by fastforce
    from computeNewRows_new[OF this] show ?thesis .
  next
    case False
    from update_not_updated[OF u False] show ?thesis by simp
  qed
  from both show "distinct (map path (added res))" by simp
  from both show "set (map path (added res)) \<inter> set (map path (parseTable readme)) = {}" by simp
  {
    assume "distinct (map path (parseTable readme))"
    with both show "distinct (map path (parseTable readme @ added res))" by auto
  }
  {
    assume d: "distinct (map path (parseTable readme))"
      and c: "updated res \<longrightarrow>
                atLineStart readme (insertIdx readme defaultSentinel) \<and>
                list_all readsBack (added res)"
      and wr: "files (snd (update h w root config ov)) (pathJoin h root (indexFile config))
                 = Some written"
    from c have c': "updated res \<Longrightarrow>
        atLineStart readme (insertIdx readme defaultSentinel) \<and> list_all readsBack (added res)"
      by simp
    from update_keeps_parsed_paths_unique[OF u r d c' wr]
    show "distinct (map path (parseTable written))" .
  }
next
  show "files (snd (check h w root config ov)) = files w"
  proof -
    obtain r w1 where g: "getStagedMdFiles w ov = (r, w1)" by (cases "getStagedMdFiles w ov")
    have "files w1 = files w" using getStagedMdFiles_frame[of w ov] g by auto
    then show ?thesis
      using g by (simp add: check_def Let_def split: sum.splits option.splits)
  qed
qed

theorem no_path_inserted_twice_witness:
  "computeNewRows nodeHost dupWorld ''/repo'' [''docs/b.md'', ''docs/a.md'', ''docs/b.md'']
      (set [''a.md'']) testConfig
     = Inr ([\<lparr>title = ''b'', path = ''b.md'', purpose = Some ''b''\<rparr>], set [''b.md'', ''a.md''])
   \<and> fst (update nodeHost dupWorld ''/repo'' testConfig (Some dupStaged))
     = Inr \<lparr>updated = True, added = [\<lparr>title = ''b'', path = ''b.md'', purpose = Some ''b''\<rparr>]\<rparr>
   \<and> files dupWorld (pathJoin nodeHost ''/repo'' (indexFile testConfig)) = Some sentinelIndex
   \<and> map path (parseTable sentinelIndex) = [''a.md'', ''archive/'']
   \<and> atLineStart sentinelIndex (insertIdx sentinelIndex defaultSentinel)
   \<and> list_all readsBack [\<lparr>title = ''b'', path = ''b.md'', purpose = Some ''b''\<rparr>]
   \<and> files (snd (update nodeHost dupWorld ''/repo'' testConfig (Some dupStaged)))
        (pathJoin nodeHost ''/repo'' (indexFile testConfig)) = Some sentinelWritten
   \<and> distinct (map path (parseTable sentinelIndex @
        [\<lparr>title = ''b'', path = ''b.md'', purpose = Some ''b''\<rparr>]))
   \<and> distinct (map path (parseTable sentinelWritten))"
proof -
  let ?b = "\<lparr>title = ''b'', path = ''b.md'', purpose = Some ''b''\<rparr>"
  have c: "computeNewRows nodeHost dupWorld ''/repo'' [''docs/b.md'', ''docs/a.md'', ''docs/b.md'']
      (set [''a.md'']) testConfig = Inr ([?b], set [''b.md'', ''a.md''])"
    by code_simp
  have u: "fst (update nodeHost dupWorld ''/repo'' testConfig (Some dupStaged))
     = Inr \<lparr>updated = True, added = [?b]\<rparr>"
    by code_simp
  have f: "files dupWorld (pathJoin nodeHost ''/repo'' (indexFile testConfig)) = Some sentinelIndex"
    by code_simp
  have p: "map path (parseTable sentinelIndex) = [''a.md'', ''archive/'']"
    by code_simp
  have d: "distinct (map path (parseTable sentinelIndex))"
    unfolding p by simp
  have al: "atLineStart sentinelIndex (insertIdx sentinelIndex defaultSentinel)"
    by code_simp
  have rb: "list_all readsBack [?b]"
    by code_simp
  have wr: "files (snd (update nodeHost dupWorld ''/repo'' testConfig (Some dupStaged)))
        (pathJoin nodeHost ''/repo'' (indexFile testConfig)) = Some sentinelWritten"
    by code_simp
  from no_path_inserted_twice[where h = nodeHost and w = dupWorld and root = "''/repo''"
      and config = testConfig and ov = "Some dupStaged" and readme = sentinelIndex
      and res = "\<lparr>updated = True, added = [?b]\<rparr>" and written = sentinelWritten
      and stagedDocs = "[''docs/b.md'', ''docs/a.md'', ''docs/b.md'']"
      and existingPaths = "set [''a.md'']" and rows = "[?b]" and seen = "set [''b.md'', ''a.md'']"]
    u f d al rb wr
  have "distinct (map path (parseTable sentinelIndex @ [?b]))
      \<and> distinct (map path (parseTable sentinelWritten))" by simp
  with c u f p al rb wr show ?thesis by blast
qed

section \<open>Check before and after update (C1)\<close>

text \<open>
  \<open>check\<close> walks the staged documents as \<open>computeNewRows\<close> does and answers \<open>True\<close>
  exactly when \<open>computeNewRows\<close> adds nothing.
\<close>

lemma checkLoop_computeNewRowsLoop:
  "computeNewRowsLoop h w root config docs ex acc = Inr (rows, seen) \<Longrightarrow>
   checkLoop h config ex docs = Inr (rows = acc)"
proof (induction docs arbitrary: ex acc)
  case Nil
  then show ?case by auto
next
  case (Cons p docs)
  show ?case
  proof (cases "stripDocsDir h (docsDir config) p")
    case (Inl e)
    with Cons.prems show ?thesis by simp
  next
    case (Inr pth)
    show ?thesis
    proof (cases "pth \<in> ex")
      case True
      with Cons.prems Inr have "computeNewRowsLoop h w root config docs ex acc = Inr (rows, seen)"
        by simp
      from Cons.IH[OF this] Inr True show ?thesis by simp
    next
      case False
      from Cons.prems Inr False obtain row where
        "computeNewRowsLoop h w root config docs (insert pth ex) (acc @ [row]) = Inr (rows, seen)"
        by (simp add: Let_def)
      from computeNewRowsLoop_new[OF this] have "rows \<noteq> acc" by auto
      with Inr False show ?thesis by simp
    qed
  qed
qed

text \<open>
  The first half of C1 holds of every run: whenever \<open>update\<close> reports \<open>updated = True\<close>,
  \<open>check\<close> in the same surroundings and with the same candidates returns \<open>False\<close>.
\<close>

lemma update_reports_check_before_false:
  assumes "fst (update h w root config ov) = Inr res" and "updated res"
  shows "fst (check h w root config ov) = Inr False"
proof -
  from update_added[OF assms] obtain staged w1 readme seen where
    g: "getStagedMdFiles w ov = (Inr staged, w1)"
    and d: "getStagedDocs staged config \<noteq> []"
    and f: "files w (pathJoin h root (indexFile config)) = Some readme"
    and c: "computeNewRows h (warnRootMdStaged w1 staged config) root (getStagedDocs staged config)
          (set (map path (parseTable readme))) config = Inr (added res, seen)"
    and n: "added res \<noteq> []" by blast
  have f1: "files w1 = files w" using getStagedMdFiles_frame[of w ov] g by auto
  from checkLoop_computeNewRowsLoop[OF c[unfolded computeNewRows_def]] n
  have "checkLoop h config (set (map path (parseTable readme))) (getStagedDocs staged config)
          = Inr False"
    by simp
  then show ?thesis using g d f f1 by (simp add: check_def Let_def)
qed

text \<open>
  One index on which the round trip holds: in \<open>sentinelIndex\<close> the archive row starts a
  line, so the row for \<open>b.md\<close> is spliced as a line of its own; it is added once, \<open>check\<close>
  after the update returns \<open>True\<close>, and a second \<open>update\<close> reports no change and leaves
  the file as it is.
\<close>

lemma sentinel_index_round_trip:
  "fst (check nodeHost (snd (update nodeHost dupWorld ''/repo'' testConfig (Some dupStaged)))
        ''/repo'' testConfig (Some dupStaged)) = Inr True
   \<and> fst (update nodeHost (snd (update nodeHost dupWorld ''/repo'' testConfig (Some dupStaged)))
        ''/repo'' testConfig (Some dupStaged)) = Inr \<lparr>updated = False, added = []\<rparr>
   \<and> files (snd (update nodeHost
               (snd (update nodeHost dupWorld ''/repo'' testConfig (Some dupStaged)))
               ''/repo'' testConfig (Some dupStaged))) ''/repo/docs/README.md''
     = files (snd (update nodeHost dupWorld ''/repo'' testConfig (Some dupStaged)))
         ''/repo/docs/README.md''"
  by code_simp

text \<open>
  C1, second half, on the index \<open>glueIndex\<close> with \<open>docs/b.md\<close> staged: \<open>update\<close> reports
  the row for \<open>b.md\<close> as added and \<open>check\<close> beforehand returns \<open>False\<close>, as C1 says. The
  insertion offset is that of the blank line after the table, which is the end of the
  last row's text, so the new row is written onto the line of the row for \<open>a.md\<close>; the
  parser reads one link per line, the table of the written index has the path \<open>a.md\<close>
  only, and \<open>check\<close> after the update returns \<open>False\<close> where C1 says \<open>True\<close>.
\<close>

theorem update_then_check_out_of_date:
  "fst (update nodeHost glueWorld ''/repo'' testConfig (Some ''docs/b.md''))
     = Inr \<lparr>updated = True, added = [\<lparr>title = ''b'', path = ''b.md'', purpose = Some ''b''\<rparr>]\<rparr>
   \<and> fst (check nodeHost glueWorld ''/repo'' testConfig (Some ''docs/b.md'')) = Inr False
   \<and> files (snd (update nodeHost glueWorld ''/repo'' testConfig (Some ''docs/b.md'')))
        ''/repo/docs/README.md'' = Some glueIndex1
   \<and> map path (parseTable glueIndex1) = [''a.md'']
   \<and> fst (check nodeHost (snd (update nodeHost glueWorld ''/repo'' testConfig (Some ''docs/b.md'')))
        ''/repo'' testConfig (Some ''docs/b.md'')) = Inr False"
  by code_simp

section \<open>Running update twice (C2)\<close>

text \<open>
  C2 on the same input: the second \<open>update\<close>, with the same staged file and nothing else
  changed, does not find \<open>b.md\<close> in the table it parses, reports it as added again and
  writes the index a second time, with the row in it twice.
\<close>

theorem second_update_writes_again:
  "fst (update nodeHost (snd (update nodeHost glueWorld ''/repo'' testConfig (Some ''docs/b.md'')))
        ''/repo'' testConfig (Some ''docs/b.md''))
     = Inr \<lparr>updated = True, added = [\<lparr>title = ''b'', path = ''b.md'', purpose = Some ''b''\<rparr>]\<rparr>
   \<and> files (snd (update nodeHost glueWorld ''/repo'' testConfig (Some ''docs/b.md'')))
        ''/repo/docs/README.md'' = Some glueIndex1
   \<and> files (snd (update nodeHost
               (snd (update nodeHost glueWorld ''/repo'' testConfig (Some ''docs/b.md'')))
               ''/repo'' testConfig (Some ''docs/b.md'')))
        ''/repo/docs/README.md'' = Some glueIndex2
   \<and> glueIndex2 \<noteq> glueIndex1
   \<and> writesOf (snd (update nodeHost
               (snd (update nodeHost glueWorld ''/repo'' testConfig (Some ''docs/b.md'')))
               ''/repo'' testConfig (Some ''docs/b.md'')))
      = [WriteFile ''/repo/docs/README.md'' glueIndex1, WriteFile ''/repo/docs/README.md'' glueIndex2]"
  by code_simp

section \<open>The insertion offset (C6)\<close>

lemma indexOf_zero:
  "indexOf s pat 0 = (case findSub pat s of None \<Rightarrow> - 1 | Some i \<Rightarrow> int i)"
  by (simp add: indexOf_def split: option.splits)

lemma indexOf_neg: "indexOf s pat (- 1) = indexOf s pat 0"
  by (simp add: indexOf_def)

lemma indexOf_at:
  "k \<le> length s \<Longrightarrow>
   indexOf s pat (int k) = (case findSub pat (drop k s) of None \<Rightarrow> - 1 | Some j \<Rightarrow> int (k + j))"
  by (simp add: indexOf_def)

text \<open>
  The offset \<open>insertRows\<close> splices at, by first occurrences: that of the sentinel; else
  that of the first blank-line pair at or after the header; else, when the header is
  absent, that of the first blank-line pair of the whole document; else the end.
\<close>

lemma insertIdx_cases:
  "insertIdx readme sp =
     (case findSub sp readme of
        Some i \<Rightarrow> i
      | None \<Rightarrow>
          (case findSub ''| Doc | Purpose |'' readme of
             Some k \<Rightarrow>
               (case findSub [CHR 0x0A, CHR 0x0A] (drop k readme) of
                  Some j \<Rightarrow> k + j
                | None \<Rightarrow> length readme)
           | None \<Rightarrow>
               (case findSub [CHR 0x0A, CHR 0x0A] readme of
                  Some j \<Rightarrow> j
                | None \<Rightarrow> length readme)))"
proof (cases "findSub sp readme")
  case (Some i)
  then show ?thesis by (simp add: insertIdx_def indexOf_zero)
next
  case None
  note sp = this
  show ?thesis
  proof (cases "findSub ''| Doc | Purpose |'' readme")
    case None
    then show ?thesis
      using sp by (simp add: insertIdx_def indexOf_zero indexOf_neg split: option.splits)
  next
    case (Some k)
    from findSub_bound[OF Some] have "k \<le> length readme" .
    from indexOf_at[OF this] Some sp show ?thesis
      by (simp add: insertIdx_def indexOf_zero nat_add_distrib split: option.splits)
  qed
qed

text \<open>
  C6 on the index \<open>headerlessIndex\<close>, which holds neither the sentinel nor the header
  \<open>insertRows\<close> looks for: C6 has the row appended at the very end of the document. The
  offset of the absent header, -1, is passed on as the start of the search for the
  blank-line pair, so the row is spliced at the first blank line, onto the title line.
\<close>

theorem insertRows_absent_header_first_blank_line:
  "indexOf headerlessIndex defaultSentinel 0 = - 1
   \<and> indexOf headerlessIndex ''| Doc | Purpose |'' 0 = - 1
   \<and> insertIdx headerlessIndex defaultSentinel = 6
   \<and> insertRows headerlessIndex [bRow] defaultSentinel =
        ''# Docs| [b](b.md) | B |'' @ [CHR 0x0A] @
        [CHR 0x0A] @
        [CHR 0x0A] @
        ''| Document | Purpose |'' @ [CHR 0x0A] @
        ''|---|---|'' @ [CHR 0x0A] @
        ''| [a](a.md) | A |'' @ [CHR 0x0A]
   \<and> insertRows headerlessIndex [bRow] defaultSentinel
        \<noteq> headerlessIndex @ ''| [b](b.md) | B |'' @ [CHR 0x0A]"
  by code_simp

end
